theory Spec2Isabelle
  imports Complex_Main "HOL-Library.Multiset"
begin

section \<open>Data model\<close>

text \<open>
  A \<open>QuantumCircuit\<close> is used by the packer only through \<open>num_qubits\<close>, the number
  of qubits of the circuit, a count and therefore a natural number.
\<close>

datatype QuantumCircuit = QuantumCircuit (num_qubits: nat)

text \<open>
  Modelled from the spec: the classes \<open>JobHelper\<close>, \<open>Bin\<close> and \<open>JobResultInfo\<close> are
  imported from \<open>.types\<close>, whose file is not among the sources. Their fields are the ones
  the packer reads and writes. \<open>JobHelper(name, instance)\<close> carries the identifier and the
  circuit (or \<open>None\<close>); a fresh \<open>Bin\<close> has no jobs and \<open>full = False\<close>.
\<close>

record JobHelper =
  name :: string
  job_instance :: "QuantumCircuit option"

record Bin =
  capacity :: int
  full :: bool
  index :: nat
  jobs :: "JobHelper list"
  qpu :: nat

record JobResultInfo =
  job_name :: string
  machine :: string
  start_time :: nat
  completion_time :: real

datatype error = AssertionError

text \<open>
  The mapping \<open>accelerators: dict[str, int]\<close> is an insertion-ordered dictionary: an
  association list, whose \<open>values()\<close> and \<open>keys()\<close> are the two projections.
\<close>

type_synonym accelerators = "(string \<times> int) list"

definition acc_values :: "accelerators \<Rightarrow> int list" where
  "acc_values accs = map snd accs"

definition acc_keys :: "accelerators \<Rightarrow> string list" where
  "acc_keys accs = map fst accs"

section \<open>Decimal identifiers\<close>

text \<open>Python's \<open>str\<close> on a non-negative integer: its decimal digits.\<close>

definition digit_char :: "nat \<Rightarrow> char" where
  "digit_char d = ''0123456789'' ! d"

function str_nat :: "nat \<Rightarrow> string" where
  "str_nat n = (if n < 10 then [digit_char n] else str_nat (n div 10) @ [digit_char (n mod 10)])"
  by pat_completeness auto
termination
  by (relation "measure id") auto

declare str_nat.simps [simp del]

section \<open>The bin packer\<close>

text \<open>
  \<open>find_fitting_bin\<close> (lines 17 to 21): the position of the first bin whose remaining
  capacity is at least the number of qubits of the job's circuit. The caller has checked
  that the job has a circuit, which is the argument here.
\<close>

fun find_fitting_bin :: "QuantumCircuit \<Rightarrow> Bin list \<Rightarrow> nat option" where
  "find_fitting_bin c [] = None"
| "find_fitting_bin c (b # bs) =
     (if capacity b \<ge> int (num_qubits c) then Some 0
      else map_option Suc (find_fitting_bin c bs))"

text \<open>Line 23: \<open>[JobHelper(str(idx + 1), job) for idx, job in enumerate(jobs)]\<close>.\<close>

definition new_jobs :: "QuantumCircuit option list \<Rightarrow> JobHelper list" where
  "new_jobs js = map (\<lambda>(idx, job). \<lparr>name = str_nat (idx + 1), job_instance = job\<rparr>)
                     (enumerate 0 js)"

text \<open>
  Lines 24 to 27 and 38 to 41: one fresh bin per machine, in the order of
  \<open>accelerators.values()\<close>, for the generation \<open>i\<close>.
\<close>

definition fresh_bins :: "nat \<Rightarrow> accelerators \<Rightarrow> Bin list" where
  "fresh_bins i accs =
     map (\<lambda>(idx, q). \<lparr>capacity = q, full = False, index = i, jobs = [], qpu = idx\<rparr>)
         (enumerate 0 (acc_values accs))"

text \<open>The variables of the loop: \<open>open_bins\<close>, \<open>closed_bins\<close> and the counter \<open>index\<close>.\<close>

record packer =
  open_bins :: "Bin list"
  closed_bins :: "Bin list"
  next_index :: nat

definition init_packer :: "accelerators \<Rightarrow> packer" where
  "init_packer accs = \<lparr>open_bins = fresh_bins 0 accs, closed_bins = [], next_index = 1\<rparr>"

text \<open>\<open>del xs[i]\<close> for an index in range.\<close>

definition del_at :: "nat \<Rightarrow> 'a list \<Rightarrow> 'a list" where
  "del_at i xs = take i xs @ drop (Suc i) xs"

text \<open>
  Lines 50 to 59: the job is appended to the selected bin, whose capacity shrinks; a bin
  that reaches capacity zero is marked full, appended to \<open>closed_bins\<close> and deleted from
  \<open>open_bins\<close>.
\<close>

definition add_to_bin :: "JobHelper \<Rightarrow> QuantumCircuit \<Rightarrow> nat \<Rightarrow> packer \<Rightarrow> packer" where
  "add_to_bin job c bin_idx st =
     (let b = open_bins st ! bin_idx;
          selected_bin = b\<lparr>jobs := jobs b @ [job], capacity := capacity b - int (num_qubits c)\<rparr>
      in if capacity selected_bin = 0
         then st\<lparr>closed_bins := closed_bins st @ [selected_bin\<lparr>full := True\<rparr>],
                 open_bins := del_at bin_idx (open_bins st)\<rparr>
         else st\<lparr>open_bins := (open_bins st)[bin_idx := selected_bin]\<rparr>)"

text \<open>
  Lines 31 to 59, the body of the loop for one job. An entry without a circuit is skipped.
  When no open bin fits, a new generation of bins is made, the counter grows, and the job
  must fit one of the new bins, or the assertion of line 46 fails.
\<close>

definition place_job :: "accelerators \<Rightarrow> JobHelper \<Rightarrow> packer \<Rightarrow> error + packer" where
  "place_job accs job st =
     (case job_instance job of
        None \<Rightarrow> Inr st
      | Some c \<Rightarrow>
          (case find_fitting_bin c (open_bins st) of
             Some bin_idx \<Rightarrow> Inr (add_to_bin job c bin_idx st)
           | None \<Rightarrow>
               (let new_bins = fresh_bins (next_index st) accs in
                case find_fitting_bin c new_bins of
                  None \<Rightarrow> Inl AssertionError
                | Some bin_idx \<Rightarrow>
                    Inr (add_to_bin job c (bin_idx + length (open_bins st))
                          (st\<lparr>next_index := next_index st + 1,
                              open_bins := open_bins st @ new_bins\<rparr>)))))"

text \<open>Lines 30 to 59: the loop over the jobs; the first failure ends the run.\<close>

fun pack_jobs :: "accelerators \<Rightarrow> JobHelper list \<Rightarrow> packer \<Rightarrow> error + packer" where
  "pack_jobs accs [] st = Inr st"
| "pack_jobs accs (job # rest) st =
     (case place_job accs job st of
        Inl e \<Rightarrow> Inl e
      | Inr st' \<Rightarrow> pack_jobs accs rest st')"

text \<open>Lines 61 to 64: the open bins that hold a job are closed, in their order.\<close>

definition close_open_bins :: "packer \<Rightarrow> Bin list" where
  "close_open_bins st = closed_bins st @ filter (\<lambda>obin. length (jobs obin) > 0) (open_bins st)"

text \<open>
  Lines 23 to 64 and the \<open>sorted\<close> of line 68, which is stable: the bins in the order
  in which the schedule is read off them.
\<close>

definition packed_bins :: "QuantumCircuit option list \<Rightarrow> accelerators \<Rightarrow> error + Bin list" where
  "packed_bins js accs =
     (case pack_jobs accs (new_jobs js) (init_packer accs) of
        Inl e \<Rightarrow> Inl e
      | Inr st \<Rightarrow> Inr (sort_key index (close_open_bins st)))"

text \<open>Lines 66 to 78: one record per job, bin by bin.\<close>

definition combined_jobs :: "accelerators \<Rightarrow> Bin list \<Rightarrow> JobResultInfo list" where
  "combined_jobs accs bins =
     concat (map (\<lambda>b. map (\<lambda>job. \<lparr>job_name = name job, machine = acc_keys accs ! qpu b,
                                    start_time = index b, completion_time = - 1\<rparr>) (jobs b)) bins)"

section \<open>The makespan evaluator\<close>

text \<open>
  Modelled from the spec: \<open>pulp.makeDict(headers, array, 0)\<close> belongs to a library that
  is not among the sources. The spec says of it that a key absent from a time matrix
  defaults to zero cost. The nested lists are paired with the header lists position by
  position; a lookup of a key without an entry gives the default \<open>0\<close>.
\<close>

definition make_dict2 :: "string list \<Rightarrow> string list \<Rightarrow> real list list \<Rightarrow> (string \<times> string \<rightharpoonup> real)" where
  "make_dict2 h1 h2 arr =
     map_of (concat (map (\<lambda>(a, row). map (\<lambda>(b, v). ((a, b), v)) (zip h2 row)) (zip h1 arr)))"

definition make_dict3 ::
  "string list \<Rightarrow> string list \<Rightarrow> string list \<Rightarrow> real list list list \<Rightarrow> (string \<times> string \<times> string \<rightharpoonup> real)" where
  "make_dict3 h1 h2 h3 arr =
     map_of (concat (map (\<lambda>(a, plane).
        concat (map (\<lambda>(b, row). map (\<lambda>(c, v). ((a, b, c), v)) (zip h3 row)) (zip h2 plane)))
        (zip h1 arr)))"

definition get_default :: "('k \<rightharpoonup> real) \<Rightarrow> 'k \<Rightarrow> real" where
  "get_default d k = (case d k of None \<Rightarrow> 0 | Some v \<Rightarrow> v)"

text \<open>
  Modelled from the spec: \<open>calculate_makespan\<close> is imported from
  \<open>.generate_milp_schedules\<close>, whose file is not among the sources. By the spec, the jobs of
  a machine run in the order of the records, after a synthetic predecessor \<open>0\<close> that
  finishes at time 0; a job finishes at its predecessor's finish time plus the setup time
  of (predecessor, job, machine) plus the processing time of (job, machine); the makespan
  is the greatest finish time over the machines, and 0 when there is no job. The
  completion times that the evaluator may write into the records are not modelled.
\<close>

fun machine_finish ::
  "(string \<times> string \<rightharpoonup> real) \<Rightarrow> (string \<times> string \<times> string \<rightharpoonup> real) \<Rightarrow> string \<Rightarrow> string \<Rightarrow> real \<Rightarrow>
   JobResultInfo list \<Rightarrow> real" where
  "machine_finish p s m pred t [] = t"
| "machine_finish p s m pred t (j # rest) =
     machine_finish p s m (job_name j)
       (t + get_default s (pred, job_name j, m) + get_default p (job_name j, m)) rest"

definition calculate_makespan ::
  "JobResultInfo list \<Rightarrow> (string \<times> string \<rightharpoonup> real) \<Rightarrow> (string \<times> string \<times> string \<rightharpoonup> real) \<Rightarrow> real" where
  "calculate_makespan rs p s =
     fold max (map (\<lambda>m. machine_finish p s m ''0'' 0 (filter (\<lambda>j. machine j = m) rs))
                   (remdups (map machine rs))) 0"

text \<open>Lines 85 to 105.\<close>

definition lp_jobs :: "QuantumCircuit option list \<Rightarrow> string list" where
  "lp_jobs base_jobs = ''0'' # map (\<lambda>(idx, _). str_nat (idx + 1)) (enumerate 0 base_jobs)"

definition calculate_result_from_baseline ::
  "JobResultInfo list \<Rightarrow> real list list \<Rightarrow> real list list list \<Rightarrow> QuantumCircuit option list \<Rightarrow>
   accelerators \<Rightarrow> real \<times> JobResultInfo list" where
  "calculate_result_from_baseline rs process_times setup_times base_jobs accs =
     (let machines = acc_keys accs;
          p_times = make_dict2 (tl (lp_jobs base_jobs)) machines process_times;
          s_times = make_dict3 (lp_jobs base_jobs) (lp_jobs base_jobs) machines setup_times
      in (calculate_makespan rs p_times s_times, rs))"

text \<open>Lines 9 to 82: the packer, then the evaluation of its records.\<close>

definition generate_baseline_schedule ::
  "QuantumCircuit option list \<Rightarrow> accelerators \<Rightarrow> real list list \<Rightarrow> real list list list \<Rightarrow>
   error + real \<times> JobResultInfo list" where
  "generate_baseline_schedule js accs process_times setup_times =
     (case packed_bins js accs of
        Inl e \<Rightarrow> Inl e
      | Inr bins \<Rightarrow>
          Inr (calculate_result_from_baseline (combined_jobs accs bins)
                 process_times setup_times js accs))"

section \<open>Quantities and invariants of the packer\<close>

text \<open>
  The capacity requirement of a job is the number of qubits of its circuit; the load of a
  bin is the sum over its jobs; the capacity of the machine of a bin is the entry of
  \<open>accelerators.values()\<close> at the bin's \<open>qpu\<close>.
\<close>

definition job_qubits :: "JobHelper \<Rightarrow> nat" where
  "job_qubits j = (case job_instance j of None \<Rightarrow> 0 | Some c \<Rightarrow> num_qubits c)"

definition bin_load :: "Bin \<Rightarrow> nat" where
  "bin_load b = sum_list (map job_qubits (jobs b))"

definition machine_capacity :: "accelerators \<Rightarrow> Bin \<Rightarrow> int" where
  "machine_capacity accs b = acc_values accs ! qpu b"

definition bin_inv :: "accelerators \<Rightarrow> nat \<Rightarrow> Bin \<Rightarrow> bool" where
  "bin_inv accs n b \<longleftrightarrow>
     qpu b < length accs \<and> index b < n \<and>
     capacity b = machine_capacity accs b - int (bin_load b) \<and>
     (\<forall>j \<in> set (jobs b). job_instance j \<noteq> None)"

definition open_inv :: "Bin \<Rightarrow> bool" where
  "open_inv b \<longleftrightarrow> \<not> full b \<and> (jobs b \<noteq> [] \<longrightarrow> 0 < capacity b)"

definition closed_inv :: "Bin \<Rightarrow> bool" where
  "closed_inv b \<longleftrightarrow> full b \<and> capacity b = 0 \<and> jobs b \<noteq> []"

definition gen_lt :: "Bin \<Rightarrow> Bin \<Rightarrow> bool" where
  "gen_lt a b \<longleftrightarrow> index a < index b \<or> (index a = index b \<and> qpu a < qpu b)"

definition packer_inv :: "accelerators \<Rightarrow> packer \<Rightarrow> bool" where
  "packer_inv accs st \<longleftrightarrow>
     (\<forall>b \<in> set (open_bins st). bin_inv accs (next_index st) b \<and> open_inv b) \<and>
     (\<forall>b \<in> set (closed_bins st). bin_inv accs (next_index st) b \<and> closed_inv b) \<and>
     sorted_wrt gen_lt (open_bins st)"

text \<open>The jobs held by a list of bins, bin by bin; the entries that carry a circuit.\<close>

definition bins_jobs :: "Bin list \<Rightarrow> JobHelper list" where
  "bins_jobs bins = concat (map jobs bins)"

definition has_circuit :: "JobHelper \<Rightarrow> bool" where
  "has_circuit j \<longleftrightarrow> job_instance j \<noteq> None"

text \<open>
  A circuit is infeasible when it needs more qubits than the nominal capacity of every
  machine.
\<close>

definition infeasible :: "accelerators \<Rightarrow> QuantumCircuit \<Rightarrow> bool" where
  "infeasible accs c \<longleftrightarrow> (\<forall>q \<in> set (acc_values accs). q < int (num_qubits c))"

text \<open>
  Two orders on bins. \<open>gen_lt\<close> above is the order by generation and, within a generation,
  by the position of the machine. \<open>closing_order\<close> is the order by generation in which,
  within a generation, a full bin comes before a bin that is not full, and the bins that
  are not full are in the order of their machines.
\<close>

definition closing_order :: "Bin \<Rightarrow> Bin \<Rightarrow> bool" where
  "closing_order a b \<longleftrightarrow>
     index a \<le> index b \<and>
     (index a = index b \<longrightarrow> (full b \<longrightarrow> full a) \<and> (\<not> full a \<longrightarrow> qpu a < qpu b))"

text \<open>The generation of every job held by a list of bins, bin by bin.\<close>

definition job_gens :: "Bin list \<Rightarrow> nat list" where
  "job_gens bins = concat (map (\<lambda>b. map (\<lambda>_. index b) (jobs b)) bins)"

text \<open>
  The bound on the number of generations in the words of the spec: the ceiling of the total
  capacity demand divided by the total machine capacity.
\<close>

definition total_demand :: "QuantumCircuit option list \<Rightarrow> nat" where
  "total_demand js = sum_list (map (\<lambda>j. case j of None \<Rightarrow> 0 | Some c \<Rightarrow> num_qubits c) js)"

definition total_capacity :: "accelerators \<Rightarrow> int" where
  "total_capacity accs = sum_list (acc_values accs)"

definition spec_generation_bound :: "QuantumCircuit option list \<Rightarrow> accelerators \<Rightarrow> int" where
  "spec_generation_bound js accs = \<lceil>real (total_demand js) / real_of_int (total_capacity accs)\<rceil>"

text \<open>
  Once a job is placed, the generations in use are exactly those below the counter, which
  is at most the number of jobs placed.
\<close>

definition gens_inv :: "accelerators \<Rightarrow> packer \<Rightarrow> bool" where
  "gens_inv accs st \<longleftrightarrow>
     st = init_packer accs \<or>
     (set (job_gens (closed_bins st @ open_bins st)) = {..<next_index st} \<and>
      next_index st \<le> length (job_gens (closed_bins st @ open_bins st)))"



section \<open>Evaluation of the definitions\<close>

lemmas packer_defs = packed_bins_def new_jobs_def init_packer_def fresh_bins_def acc_values_def
  place_job_def add_to_bin_def del_at_def close_open_bins_def acc_keys_def combined_jobs_def

lemma str_nat_small:
  "str_nat (Suc 0) = ''1''" "str_nat (Suc (Suc 0)) = ''2''" "str_nat (Suc (Suc (Suc 0))) = ''3''"
  by (simp_all add: str_nat.simps digit_char_def)

section \<open>Scenario A\<close>

text \<open>
  Claim C8. Two machines of capacity 4 each and three jobs of 3 qubits each, in this order:
  the packer yields exactly three bins, all holding one job, of generations 0, 0 and 1.
  Job 1 is in the bin of generation 0 on machine 0, job 2 in the bin of generation 0 on
  machine 1, job 3 in the bin of generation 1 on machine 0; the returned records say the
  same.
\<close>

theorem scenario_A:
  "packed_bins [Some (QuantumCircuit 3), Some (QuantumCircuit 3), Some (QuantumCircuit 3)]
       [(n0, 4), (n1, 4)] =
     Inr [\<lparr>capacity = 1, full = False, index = 0,
            jobs = [\<lparr>name = ''1'', job_instance = Some (QuantumCircuit 3)\<rparr>], qpu = 0\<rparr>,
          \<lparr>capacity = 1, full = False, index = 0,
            jobs = [\<lparr>name = ''2'', job_instance = Some (QuantumCircuit 3)\<rparr>], qpu = 1\<rparr>,
          \<lparr>capacity = 1, full = False, index = 1,
            jobs = [\<lparr>name = ''3'', job_instance = Some (QuantumCircuit 3)\<rparr>], qpu = 0\<rparr>]
   \<and> map_sum id snd (generate_baseline_schedule
         [Some (QuantumCircuit 3), Some (QuantumCircuit 3), Some (QuantumCircuit 3)]
         [(n0, 4), (n1, 4)] process_times setup_times) =
     Inr [\<lparr>job_name = ''1'', machine = n0, start_time = 0, completion_time = - 1\<rparr>,
          \<lparr>job_name = ''2'', machine = n1, start_time = 0, completion_time = - 1\<rparr>,
          \<lparr>job_name = ''3'', machine = n0, start_time = 1, completion_time = - 1\<rparr>]"
proof -
  have bins: "packed_bins [Some (QuantumCircuit 3), Some (QuantumCircuit 3), Some (QuantumCircuit 3)]
       [(n0, 4), (n1, 4)] =
     Inr [\<lparr>capacity = 1, full = False, index = 0,
            jobs = [\<lparr>name = ''1'', job_instance = Some (QuantumCircuit 3)\<rparr>], qpu = 0\<rparr>,
          \<lparr>capacity = 1, full = False, index = 0,
            jobs = [\<lparr>name = ''2'', job_instance = Some (QuantumCircuit 3)\<rparr>], qpu = 1\<rparr>,
          \<lparr>capacity = 1, full = False, index = 1,
            jobs = [\<lparr>name = ''3'', job_instance = Some (QuantumCircuit 3)\<rparr>], qpu = 0\<rparr>]"
    by (simp add: packer_defs str_nat_small)
  show ?thesis
    unfolding generate_baseline_schedule_def bins
    by (simp add: calculate_result_from_baseline_def combined_jobs_def acc_keys_def Let_def)
qed

section \<open>The invariant holds along the loop\<close>

lemma find_fitting_bin_None:
  "find_fitting_bin c bs = None \<longleftrightarrow> (\<forall>b \<in> set bs. capacity b < int (num_qubits c))"
  by (induction bs) auto

lemma find_fitting_bin_Some:
  "find_fitting_bin c bs = Some i \<Longrightarrow>
     i < length bs \<and> int (num_qubits c) \<le> capacity (bs ! i) \<and>
     (\<forall>j < i. capacity (bs ! j) < int (num_qubits c))"
proof (induction bs arbitrary: i)
  case Nil
  then show ?case by simp
next
  case (Cons b bs)
  show ?case
  proof (cases "int (num_qubits c) \<le> capacity b")
    case True
    with Cons.prems show ?thesis by simp
  next
    case False
    with Cons.prems obtain k where k: "find_fitting_bin c bs = Some k" "i = Suc k"
      by auto
    from Cons.IH [OF k(1)] False k(2) show ?thesis
      by (auto simp: less_Suc_eq_0_disj)
  qed
qed

lemma length_fresh_bins [simp]: "length (fresh_bins i accs) = length accs"
  by (simp add: fresh_bins_def acc_values_def)

lemma nth_fresh_bins:
  "k < length accs \<Longrightarrow>
   fresh_bins i accs ! k = \<lparr>capacity = snd (accs ! k), full = False, index = i, jobs = [], qpu = k\<rparr>"
  by (simp add: fresh_bins_def acc_values_def nth_enumerate_eq)

lemma in_set_fresh_bins:
  "b \<in> set (fresh_bins i accs) \<longleftrightarrow>
     (\<exists>k < length accs. b = \<lparr>capacity = snd (accs ! k), full = False, index = i, jobs = [], qpu = k\<rparr>)"
proof
  assume "b \<in> set (fresh_bins i accs)"
  then obtain k where "k < length accs" "b = fresh_bins i accs ! k"
    by (auto simp: in_set_conv_nth)
  then show "\<exists>k < length accs. b = \<lparr>capacity = snd (accs ! k), full = False, index = i, jobs = [], qpu = k\<rparr>"
    by (auto simp: nth_fresh_bins)
next
  assume "\<exists>k < length accs. b = \<lparr>capacity = snd (accs ! k), full = False, index = i, jobs = [], qpu = k\<rparr>"
  then obtain k where k: "k < length accs" "b = fresh_bins i accs ! k"
    by (auto simp: nth_fresh_bins)
  then show "b \<in> set (fresh_bins i accs)"
    by simp
qed

lemma fresh_bin_inv:
  "b \<in> set (fresh_bins i accs) \<Longrightarrow> i < n \<Longrightarrow> bin_inv accs n b \<and> open_inv b"
  by (auto simp: in_set_fresh_bins bin_inv_def open_inv_def machine_capacity_def acc_values_def bin_load_def)

lemma sorted_fresh_bins: "sorted_wrt gen_lt (fresh_bins i accs)"
  by (simp add: sorted_wrt_iff_nth_less nth_fresh_bins gen_lt_def)

lemma bin_inv_mono: "bin_inv accs n b \<Longrightarrow> n \<le> m \<Longrightarrow> bin_inv accs m b"
  by (auto simp: bin_inv_def)

lemma packer_inv_init: "packer_inv accs (init_packer accs)"
  by (auto simp: packer_inv_def init_packer_def sorted_fresh_bins dest: fresh_bin_inv [where n = 1])

lemma sorted_wrt_del_at:
  assumes "sorted_wrt P xs" "i < length xs"
  shows "sorted_wrt P (del_at i xs)"
proof -
  have "sorted_wrt P (take i xs @ xs ! i # drop (Suc i) xs)"
    using assms id_take_nth_drop [of i xs] by simp
  then show ?thesis
    by (auto simp: del_at_def sorted_wrt_append)
qed

lemma set_del_at: "set (del_at i xs) \<subseteq> set xs"
  by (auto simp: del_at_def dest: in_set_takeD in_set_dropD)

lemma sorted_wrt_update_key:
  assumes "sorted_wrt gen_lt xs" "i < length xs" "index y = index (xs ! i)" "qpu y = qpu (xs ! i)"
  shows "sorted_wrt gen_lt (xs[i := y])"
  using assms
  by (auto simp: sorted_wrt_iff_nth_less nth_list_update gen_lt_def)

lemma add_to_bin_inv:
  assumes inv: "packer_inv accs st" and i: "i < length (open_bins st)"
    and fit: "int (num_qubits c) \<le> capacity (open_bins st ! i)"
    and c: "job_instance job = Some c"
  shows "packer_inv accs (add_to_bin job c i st)"
proof -
  define b where "b = open_bins st ! i"
  define b' where "b' = b\<lparr>jobs := jobs b @ [job], capacity := capacity b - int (num_qubits c)\<rparr>"
  have b_in: "b \<in> set (open_bins st)"
    using i by (simp add: b_def)
  with inv have b: "bin_inv accs (next_index st) b" "open_inv b"
    by (auto simp: packer_inv_def)
  have b'_inv: "bin_inv accs (next_index st) b'"
    using b(1) c by (auto simp: bin_inv_def b'_def machine_capacity_def bin_load_def job_qubits_def)
  have b'_cap: "0 \<le> capacity b'"
    using fit by (simp add: b'_def b_def)
  have srt: "sorted_wrt gen_lt (open_bins st)"
    using inv by (simp add: packer_inv_def)
  show ?thesis
  proof (cases "capacity b' = 0")
    case True
    then have st': "add_to_bin job c i st =
        st\<lparr>closed_bins := closed_bins st @ [b'\<lparr>full := True\<rparr>], open_bins := del_at i (open_bins st)\<rparr>"
      by (simp add: add_to_bin_def b'_def b_def Let_def)
    have "bin_inv accs (next_index st) (b'\<lparr>full := True\<rparr>)"
      using b'_inv by (simp add: bin_inv_def machine_capacity_def bin_load_def)
    moreover have "closed_inv (b'\<lparr>full := True\<rparr>)"
      using True by (simp add: closed_inv_def b'_def)
    ultimately show ?thesis
      using inv set_del_at [of i "open_bins st"] sorted_wrt_del_at [OF srt i]
      unfolding st' packer_inv_def by auto
  next
    case False
    then have st': "add_to_bin job c i st = st\<lparr>open_bins := (open_bins st)[i := b']\<rparr>"
      by (simp add: add_to_bin_def b'_def b_def Let_def)
    have "open_inv b'"
      using b(2) False b'_cap by (simp add: open_inv_def b'_def)
    moreover have "sorted_wrt gen_lt ((open_bins st)[i := b'])"
      using srt i by (rule sorted_wrt_update_key) (simp_all add: b'_def b_def)
    ultimately show ?thesis
      using inv b'_inv set_update_subset_insert [of "open_bins st" i b']
      unfolding st' packer_inv_def by auto
  qed
qed

lemma packer_inv_new_generation:
  assumes "packer_inv accs st"
  shows "packer_inv accs (st\<lparr>next_index := next_index st + 1,
            open_bins := open_bins st @ fresh_bins (next_index st) accs\<rparr>)"
proof -
  have "gen_lt a b" if "a \<in> set (open_bins st)" "b \<in> set (fresh_bins (next_index st) accs)" for a b
  proof -
    from that(1) assms have "index a < next_index st"
      by (auto simp: packer_inv_def bin_inv_def)
    moreover from that(2) have "index b = next_index st"
      by (auto simp: in_set_fresh_bins)
    ultimately show ?thesis by (simp add: gen_lt_def)
  qed
  then show ?thesis
    using assms
    by (auto simp: packer_inv_def sorted_wrt_append sorted_fresh_bins
          intro: bin_inv_mono dest: fresh_bin_inv [where n = "Suc (next_index st)"])
qed

lemma place_job_inv:
  assumes "packer_inv accs st" "place_job accs job st = Inr st'"
  shows "packer_inv accs st'"
proof (cases "job_instance job")
  case None
  with assms show ?thesis by (simp add: place_job_def)
next
  case (Some c)
  show ?thesis
  proof (cases "find_fitting_bin c (open_bins st)")
    case (Some i)
    with assms \<open>job_instance job = Some c\<close> have "st' = add_to_bin job c i st"
      by (simp add: place_job_def)
    with find_fitting_bin_Some [OF Some] assms(1) \<open>job_instance job = Some c\<close> show ?thesis
      by (simp add: add_to_bin_inv)
  next
    case None
    let ?new = "fresh_bins (next_index st) accs"
    let ?st = "st\<lparr>next_index := next_index st + 1, open_bins := open_bins st @ ?new\<rparr>"
    from assms None \<open>job_instance job = Some c\<close> obtain k where
      k: "find_fitting_bin c ?new = Some k" and st': "st' = add_to_bin job c (k + length (open_bins st)) ?st"
      by (auto simp: place_job_def Let_def split: option.splits)
    from find_fitting_bin_Some [OF k] have "k < length ?new" "int (num_qubits c) \<le> capacity (?new ! k)"
      by auto
    then have "k + length (open_bins st) < length (open_bins ?st)"
      "int (num_qubits c) \<le> capacity (open_bins ?st ! (k + length (open_bins st)))"
      by (simp_all add: nth_append)
    with packer_inv_new_generation [OF assms(1)] \<open>job_instance job = Some c\<close> show ?thesis
      unfolding st' by (intro add_to_bin_inv) simp_all
  qed
qed

lemma pack_jobs_inv:
  "packer_inv accs st \<Longrightarrow> pack_jobs accs js st = Inr st' \<Longrightarrow> packer_inv accs st'"
proof (induction js arbitrary: st)
  case Nil
  then show ?case by simp
next
  case (Cons job rest)
  then show ?case
    by (auto split: sum.splits dest: place_job_inv)
qed

section \<open>From the result of the packer to the final state of the loop\<close>

lemma packed_bins_Inr:
  assumes "packed_bins js accs = Inr bins"
  obtains st where "pack_jobs accs (new_jobs js) (init_packer accs) = Inr st"
    and "bins = sort_key index (close_open_bins st)" and "packer_inv accs st"
proof -
  from assms obtain st where st: "pack_jobs accs (new_jobs js) (init_packer accs) = Inr st"
      "bins = sort_key index (close_open_bins st)"
    by (auto simp: packed_bins_def split: sum.splits)
  moreover from pack_jobs_inv [OF packer_inv_init st(1)] have "packer_inv accs st" .
  ultimately show ?thesis by (rule that)
qed

lemma closed_bin_facts:
  assumes "packer_inv accs st" "b \<in> set (close_open_bins st)"
  shows "bin_inv accs (next_index st) b" 
    and "(full b \<and> capacity b = 0) \<or> (\<not> full b \<and> 0 < capacity b)"
    and "jobs b \<noteq> []"
  using assms
  by (auto simp: packer_inv_def close_open_bins_def open_inv_def closed_inv_def)

section \<open>Capacity invariant\<close>

text \<open>
  Claim C4. In every bin of the output, the requirements of the bin's jobs sum to at most
  the capacity of the bin's machine, and to exactly that capacity if and only if the
  bin's \<open>full\<close> flag is set.
\<close>

theorem capacity_invariant:
  assumes "packed_bins js accs = Inr bins" and "b \<in> set bins"
  shows "qpu b < length accs \<and>
         int (bin_load b) \<le> machine_capacity accs b \<and>
         (int (bin_load b) = machine_capacity accs b \<longleftrightarrow> full b)"
proof -
  from assms(1) obtain st where st: "bins = sort_key index (close_open_bins st)" "packer_inv accs st"
    by (rule packed_bins_Inr)
  from assms(2) st(1) have "b \<in> set (close_open_bins st)"
    by simp
  from closed_bin_facts(1,2) [OF st(2) this] show ?thesis
    by (auto simp: bin_inv_def)
qed

theorem capacity_invariant_witness:
  "packed_bins [Some (QuantumCircuit 3), Some (QuantumCircuit 4)] [(''a'', 4), (''b'', 4)] =
     Inr [\<lparr>capacity = 0, full = True, index = 0,
            jobs = [\<lparr>name = ''2'', job_instance = Some (QuantumCircuit 4)\<rparr>], qpu = 1\<rparr>,
          \<lparr>capacity = 1, full = False, index = 0,
            jobs = [\<lparr>name = ''1'', job_instance = Some (QuantumCircuit 3)\<rparr>], qpu = 0\<rparr>]
   \<and> int (bin_load \<lparr>capacity = 0, full = True, index = 0,
            jobs = [\<lparr>name = ''2'', job_instance = Some (QuantumCircuit 4)\<rparr>], qpu = 1\<rparr>)
       = machine_capacity [(''a'', 4), (''b'', 4)] \<lparr>capacity = 0, full = True, index = 0,
            jobs = [\<lparr>name = ''2'', job_instance = Some (QuantumCircuit 4)\<rparr>], qpu = 1\<rparr>
   \<and> int (bin_load \<lparr>capacity = 1, full = False, index = 0,
            jobs = [\<lparr>name = ''1'', job_instance = Some (QuantumCircuit 3)\<rparr>], qpu = 0\<rparr>)
       < machine_capacity [(''a'', 4), (''b'', 4)] \<lparr>capacity = 1, full = False, index = 0,
            jobs = [\<lparr>name = ''1'', job_instance = Some (QuantumCircuit 3)\<rparr>], qpu = 0\<rparr>"
proof -
  let ?B1 = "\<lparr>capacity = 0, full = True, index = 0,
            jobs = [\<lparr>name = ''2'', job_instance = Some (QuantumCircuit 4)\<rparr>], qpu = 1\<rparr>"
  let ?B2 = "\<lparr>capacity = 1, full = False, index = 0,
            jobs = [\<lparr>name = ''1'', job_instance = Some (QuantumCircuit 3)\<rparr>], qpu = 0\<rparr>"
  have h: "packed_bins [Some (QuantumCircuit 3), Some (QuantumCircuit 4)] [(''a'', 4), (''b'', 4)] =
     Inr [?B1, ?B2]"
    by (simp add: packer_defs str_nat_small)
  have "?B1 \<in> set [?B1, ?B2]" "?B2 \<in> set [?B1, ?B2]"
    by simp_all
  from capacity_invariant [OF h this(1)] capacity_invariant [OF h this(2)] h show ?thesis
    by simp
qed

section \<open>Job identifiers\<close>

lemma digit_char_inj:
  assumes "a < 10" "b < 10" "digit_char a = digit_char b"
  shows "a = b"
proof -
  have "distinct ''0123456789''" by simp
  moreover have "a < length ''0123456789''" "b < length ''0123456789''"
    using assms by simp_all
  ultimately show ?thesis
    using assms(3) unfolding digit_char_def by (simp only: nth_eq_iff_index_eq)
qed

lemma str_nat_not_Nil: "str_nat n \<noteq> []"
  by (subst str_nat.simps) simp

lemma str_nat_inj: "str_nat m = str_nat n \<Longrightarrow> m = n"
proof (induction m arbitrary: n rule: less_induct)
  case (less m)
  show ?case
  proof (cases "m < 10")
    case True
    then have m: "str_nat m = [digit_char m]"
      by (subst str_nat.simps) simp
    have "n < 10"
    proof (rule ccontr)
      assume "\<not> n < 10"
      then have "str_nat n = str_nat (n div 10) @ [digit_char (n mod 10)]"
        by (subst str_nat.simps) simp
      with less.prems m str_nat_not_Nil [of "n div 10"] show False
        by auto
    qed
    then have "str_nat n = [digit_char n]"
      by (subst str_nat.simps) simp
    with less.prems m True \<open>n < 10\<close> show ?thesis
      by (auto dest: digit_char_inj)
  next
    case False
    then have m: "str_nat m = str_nat (m div 10) @ [digit_char (m mod 10)]"
      by (subst str_nat.simps) simp
    have "\<not> n < 10"
    proof
      assume "n < 10"
      then have "str_nat n = [digit_char n]"
        by (subst str_nat.simps) simp
      with less.prems m str_nat_not_Nil [of "m div 10"] show False
        by auto
    qed
    then have n: "str_nat n = str_nat (n div 10) @ [digit_char (n mod 10)]"
      by (subst str_nat.simps) simp
    from less.prems m n have eq: "str_nat (m div 10) = str_nat (n div 10)"
      and d: "digit_char (m mod 10) = digit_char (n mod 10)"
      by simp_all
    from False have "m div 10 < m" by simp
    from less.IH [OF this eq] have "m div 10 = n div 10" .
    moreover from d have "m mod 10 = n mod 10"
      by (intro digit_char_inj) simp_all
    ultimately show ?thesis
      by (metis div_mult_mod_eq)
  qed
qed

lemma inj_str_nat: "inj str_nat"
  by (rule injI) (rule str_nat_inj)

lemma new_jobs_upt:
  "new_jobs js = map (\<lambda>i. \<lparr>name = str_nat (i + 1), job_instance = js ! i\<rparr>) [0..<length js]"
  by (rule nth_equalityI) (simp_all add: new_jobs_def nth_enumerate_eq)

lemma lp_jobs_upt: "tl (lp_jobs js) = map (\<lambda>i. str_nat (i + 1)) [0..<length js]"
  by (rule nth_equalityI) (simp_all add: lp_jobs_def nth_enumerate_eq)

lemma distinct_job_names: "distinct (map (\<lambda>i. str_nat (i + 1)) [0..<length js])"
  by (auto simp: distinct_map intro!: inj_onI dest: str_nat_inj)

section \<open>The jobs in the bins are the jobs processed\<close>

lemma bins_jobs_append [simp]: "bins_jobs (xs @ ys) = bins_jobs xs @ bins_jobs ys"
  by (simp add: bins_jobs_def)

lemma bins_jobs_Cons [simp]: "bins_jobs (b # bs) = jobs b @ bins_jobs bs"
  by (simp add: bins_jobs_def)

lemma bins_jobs_Nil [simp]: "bins_jobs [] = []"
  by (simp add: bins_jobs_def)

lemma mset_bins_jobs_split:
  assumes "i < length bs"
  shows "mset (bins_jobs bs) = mset (bins_jobs (del_at i bs)) + mset (jobs (bs ! i))"
proof -
  have "bins_jobs bs = bins_jobs (take i bs @ bs ! i # drop (Suc i) bs)"
    using assms by (simp add: id_take_nth_drop [symmetric])
  then show ?thesis
    by (simp add: del_at_def)
qed

lemma mset_bins_jobs_update:
  assumes "i < length bs"
  shows "mset (bins_jobs (bs[i := b])) = mset (bins_jobs (del_at i bs)) + mset (jobs b)"
  using assms by (simp add: upd_conv_take_nth_drop del_at_def)

lemma add_to_bin_mset:
  assumes "i < length (open_bins st)"
  shows "mset (bins_jobs (closed_bins (add_to_bin job c i st) @ open_bins (add_to_bin job c i st))) =
         mset (bins_jobs (closed_bins st @ open_bins st)) + {#job#}"
  using assms mset_bins_jobs_split [OF assms]
  by (simp add: add_to_bin_def Let_def mset_bins_jobs_update)

lemma bins_jobs_fresh [simp]: "bins_jobs (fresh_bins i accs) = []"
  by (auto simp: bins_jobs_def in_set_fresh_bins)

lemma place_job_mset:
  assumes "place_job accs job st = Inr st'"
  shows "mset (bins_jobs (closed_bins st' @ open_bins st')) =
         mset (bins_jobs (closed_bins st @ open_bins st)) + mset (filter has_circuit [job])"
proof (cases "job_instance job")
  case None
  with assms show ?thesis by (simp add: place_job_def has_circuit_def)
next
  case (Some c)
  show ?thesis
  proof (cases "find_fitting_bin c (open_bins st)")
    case (Some i)
    with assms \<open>job_instance job = Some c\<close> have "st' = add_to_bin job c i st"
      by (simp add: place_job_def)
    with find_fitting_bin_Some [OF Some] \<open>job_instance job = Some c\<close> show ?thesis
      by (simp add: add_to_bin_mset has_circuit_def del: bins_jobs_append)
  next
    case None
    let ?new = "fresh_bins (next_index st) accs"
    let ?st = "st\<lparr>next_index := next_index st + 1, open_bins := open_bins st @ ?new\<rparr>"
    from assms None \<open>job_instance job = Some c\<close> obtain k where
      k: "find_fitting_bin c ?new = Some k" and st': "st' = add_to_bin job c (k + length (open_bins st)) ?st"
      by (auto simp: place_job_def Let_def split: option.splits)
    from find_fitting_bin_Some [OF k] have "k + length (open_bins st) < length (open_bins ?st)"
      by simp
    from add_to_bin_mset [OF this] \<open>job_instance job = Some c\<close> show ?thesis
      unfolding st' by (simp add: has_circuit_def)
  qed
qed

lemma pack_jobs_mset:
  "pack_jobs accs js st = Inr st' \<Longrightarrow>
   mset (bins_jobs (closed_bins st' @ open_bins st')) =
   mset (bins_jobs (closed_bins st @ open_bins st)) + mset (filter has_circuit js)"
proof (induction js arbitrary: st)
  case Nil
  then show ?case by simp
next
  case (Cons job rest)
  then obtain st1 where st1: "place_job accs job st = Inr st1" "pack_jobs accs rest st1 = Inr st'"
    by (auto split: sum.splits)
  from Cons.IH [OF st1(2)] place_job_mset [OF st1(1)] show ?case
    by (simp del: bins_jobs_append)
qed

lemma bins_jobs_filter_nonempty:
  "bins_jobs (filter (\<lambda>obin. jobs obin \<noteq> []) bs) = bins_jobs bs"
  by (induction bs) auto

lemma mset_bins_jobs_perm: "mset xs = mset ys \<Longrightarrow> mset (bins_jobs xs) = mset (bins_jobs ys)"
  unfolding bins_jobs_def mset_concat
  by (metis mset_map sum_mset_sum_list)

lemma packed_bins_mset:
  assumes "packed_bins js accs = Inr bins"
  shows "mset (bins_jobs bins) = mset (filter has_circuit (new_jobs js))"
proof -
  from assms obtain st where st: "pack_jobs accs (new_jobs js) (init_packer accs) = Inr st"
    "bins = sort_key index (close_open_bins st)"
    by (rule packed_bins_Inr)
  have "mset (bins_jobs bins) = mset (bins_jobs (close_open_bins st))"
    unfolding st(2) by (rule mset_bins_jobs_perm) simp
  also have "\<dots> = mset (bins_jobs (closed_bins st @ open_bins st))"
    by (simp add: close_open_bins_def bins_jobs_filter_nonempty)
  also have "\<dots> = mset (filter has_circuit (new_jobs js))"
    using pack_jobs_mset [OF st(1)] by (simp add: init_packer_def)
  finally show ?thesis .
qed

lemma combined_jobs_names: "map job_name (combined_jobs accs bins) = map name (bins_jobs bins)"
  by (simp add: combined_jobs_def bins_jobs_def map_concat comp_def)

lemma has_circuit_names:
  "map name (filter has_circuit (new_jobs js)) =
   map (\<lambda>i. str_nat (i + 1)) (filter (\<lambda>i. js ! i \<noteq> None) [0..<length js])"
  by (simp add: new_jobs_upt filter_map comp_def has_circuit_def)

section \<open>Entries without a circuit\<close>

lemma place_job_skip: "job_instance job = None \<Longrightarrow> place_job accs job st = Inr st"
  by (simp add: place_job_def)

lemma filter_fresh_bins_nonempty [simp]:
  "filter (\<lambda>obin. jobs obin \<noteq> []) (fresh_bins i accs) = []"
  by (auto simp: filter_empty_conv in_set_fresh_bins)

lemma pack_jobs_filter:
  "pack_jobs accs js st = pack_jobs accs (filter has_circuit js) st"
proof (induction js arbitrary: st)
  case Nil
  show ?case by simp
next
  case (Cons job rest)
  show ?case
  proof (cases "has_circuit job")
    case True
    with Cons.IH show ?thesis by (simp split: sum.splits)
  next
    case False
    with Cons.IH show ?thesis by (simp add: has_circuit_def place_job_skip)
  qed
qed

lemma jobs_in_bins_have_circuit:
  assumes "packed_bins js accs = Inr bins" "b \<in> set bins" "j \<in> set (jobs b)"
  shows "job_instance j \<noteq> None"
proof -
  from assms(1) obtain st where st: "bins = sort_key index (close_open_bins st)" "packer_inv accs st"
    by (rule packed_bins_Inr)
  from assms(2) st(1) have "b \<in> set (close_open_bins st)" by simp
  from closed_bin_facts(1) [OF st(2) this] assms(3) show ?thesis
    by (auto simp: bin_inv_def)
qed

text \<open>
  Claim C10. An entry of the job list without a circuit is skipped: the run over the job
  list is the run over the entries that have a circuit, which keep the identifiers of
  their positions in the whole list (a skipped entry uses up its identifier); a list of
  skipped entries only gives no bin and no error; every record of the result is the
  record of an entry with a circuit, and every job in a bin has a circuit.
\<close>

theorem skipped_entries:
  "packed_bins js accs =
     (case pack_jobs accs (filter has_circuit (new_jobs js)) (init_packer accs) of
        Inl e \<Rightarrow> Inl e
      | Inr st \<Rightarrow> Inr (sort_key index (close_open_bins st)))
   \<and> new_jobs js = map (\<lambda>i. \<lparr>name = str_nat (i + 1), job_instance = js ! i\<rparr>) [0..<length js]
   \<and> packed_bins (replicate n None) accs = Inr []
   \<and> (\<forall>bins. packed_bins js accs = Inr bins \<longrightarrow>
        (\<forall>r \<in> set (combined_jobs accs bins).
           \<exists>i < length js. js ! i \<noteq> None \<and> job_name r = str_nat (i + 1)) \<and>
        (\<forall>b \<in> set bins. \<forall>j \<in> set (jobs b). has_circuit j))"
proof -
  have 1: "packed_bins js accs =
     (case pack_jobs accs (filter has_circuit (new_jobs js)) (init_packer accs) of
        Inl e \<Rightarrow> Inl e
      | Inr st \<Rightarrow> Inr (sort_key index (close_open_bins st)))" for js
    unfolding packed_bins_def by (subst pack_jobs_filter) (rule refl)
  have "filter has_circuit (new_jobs (replicate n None)) = []"
    by (auto simp: filter_empty_conv new_jobs_upt has_circuit_def)
  then have 3: "packed_bins (replicate n None) accs = Inr []"
    by (simp add: 1 init_packer_def close_open_bins_def)
  have 4: "\<exists>i < length js. js ! i \<noteq> None \<and> job_name r = str_nat (i + 1)"
    if "packed_bins js accs = Inr bins" "r \<in> set (combined_jobs accs bins)" for bins r
  proof -
    from that(2) have "job_name r \<in> set (map job_name (combined_jobs accs bins))"
      by simp
    then have "job_name r \<in># mset (map name (bins_jobs bins))"
      by (simp only: combined_jobs_names set_mset_mset)
    then have "job_name r \<in> set (map name (filter has_circuit (new_jobs js)))"
      using packed_bins_mset [OF that(1)] by (metis mset_map set_mset_mset)
    then show ?thesis
      unfolding has_circuit_names by auto
  qed
  have 5: "has_circuit j"
    if "packed_bins js accs = Inr bins" "b \<in> set bins" "j \<in> set (jobs b)" for bins b j
    using jobs_in_bins_have_circuit [OF that] by (simp add: has_circuit_def)
  from 1 [of js] new_jobs_upt [of js] 3 4 5 show ?thesis
    by blast
qed

theorem skipped_entries_witness:
  "packed_bins [None, Some (QuantumCircuit 3)] [(''a'', 4)] =
     Inr [\<lparr>capacity = 1, full = False, index = 0,
            jobs = [\<lparr>name = ''2'', job_instance = Some (QuantumCircuit 3)\<rparr>], qpu = 0\<rparr>]
   \<and> has_circuit \<lparr>name = ''2'', job_instance = Some (QuantumCircuit 3)\<rparr>
   \<and> packed_bins (replicate 2 None) [(''a'', 4)] = Inr []"
proof -
  have h: "packed_bins [None, Some (QuantumCircuit 3)] [(''a'', 4)] =
     Inr [\<lparr>capacity = 1, full = False, index = 0,
            jobs = [\<lparr>name = ''2'', job_instance = Some (QuantumCircuit 3)\<rparr>], qpu = 0\<rparr>]"
    by (simp add: packer_defs str_nat_small)
  from skipped_entries [of "[None, Some (QuantumCircuit 3)]" "[(''a'', 4)]" 2] h show ?thesis
    by auto
qed

section \<open>Coverage\<close>

text \<open>
  Claim C5, amended. When the packer succeeds, the identifiers of the jobs in the output
  bins, and of the returned records, are exactly the identifiers of the entries of the
  job list that have a circuit, each once: no such job is lost and none is duplicated.
  The identifiers of all positions, \<open>lp_jobs[1:]\<close>, are pairwise different. An entry
  without a circuit is left out.
\<close>

theorem coverage:
  assumes "packed_bins js accs = Inr bins"
  shows "mset (map job_name (combined_jobs accs bins)) =
           mset (map (\<lambda>i. str_nat (i + 1)) (filter (\<lambda>i. js ! i \<noteq> None) [0..<length js]))
       \<and> mset (map name (bins_jobs bins)) =
           mset (map (\<lambda>i. str_nat (i + 1)) (filter (\<lambda>i. js ! i \<noteq> None) [0..<length js]))
       \<and> distinct (map job_name (combined_jobs accs bins))
       \<and> tl (lp_jobs js) = map (\<lambda>i. str_nat (i + 1)) [0..<length js]
       \<and> distinct (tl (lp_jobs js))"
proof -
  let ?ids = "map (\<lambda>i. str_nat (i + 1)) (filter (\<lambda>i. js ! i \<noteq> None) [0..<length js])"
  have names: "mset (map name (bins_jobs bins)) = mset ?ids"
    using packed_bins_mset [OF assms] has_circuit_names [of js]
    by (metis mset_map)
  have "distinct ?ids"
    by (auto simp: distinct_map intro!: inj_onI dest: str_nat_inj)
  then have dn: "distinct (map name (bins_jobs bins))"
    using names by (metis mset_eq_imp_distinct_iff)
  have dl: "distinct (tl (lp_jobs js))"
    unfolding lp_jobs_upt by (rule distinct_job_names)
  show ?thesis
    unfolding combined_jobs_names using names dn dl lp_jobs_upt [of js] by blast
qed

theorem coverage_witness:
  "packed_bins [None, Some (QuantumCircuit 3)] [(''a'', 4)] =
     Inr [\<lparr>capacity = 1, full = False, index = 0,
            jobs = [\<lparr>name = ''2'', job_instance = Some (QuantumCircuit 3)\<rparr>], qpu = 0\<rparr>]
   \<and> mset (map job_name (combined_jobs [(''a'', 4)] [\<lparr>capacity = 1, full = False, index = 0,
            jobs = [\<lparr>name = ''2'', job_instance = Some (QuantumCircuit 3)\<rparr>], qpu = 0\<rparr>])) =
       {#''2''#}"
proof -
  have h: "packed_bins [None, Some (QuantumCircuit 3)] [(''a'', 4)] =
     Inr [\<lparr>capacity = 1, full = False, index = 0,
            jobs = [\<lparr>name = ''2'', job_instance = Some (QuantumCircuit 3)\<rparr>], qpu = 0\<rparr>]"
    by (simp add: packer_defs str_nat_small)
  from coverage [OF h] h show ?thesis
    by (simp add: str_nat_small)
qed

text \<open>
  The claim C5 as it is written fails on a job list with an entry without a circuit: the
  run succeeds, the identifiers of the input are 1 and 2, the output holds 2 only.
\<close>

theorem coverage_counterexample:
  "map_sum id snd (generate_baseline_schedule [None, Some (QuantumCircuit 3)] [(''a'', 4)]
       [[1], [1]] [[[0], [0], [0]], [[0], [0], [0]], [[0], [0], [0]]]) =
     Inr [\<lparr>job_name = ''2'', machine = ''a'', start_time = 0, completion_time = - 1\<rparr>]
   \<and> tl (lp_jobs [None, Some (QuantumCircuit 3)]) = [''1'', ''2'']
   \<and> mset (map job_name [\<lparr>job_name = ''2'', machine = ''a'', start_time = 0, completion_time = - 1\<rparr>])
       \<noteq> mset (tl (lp_jobs [None, Some (QuantumCircuit 3)]))"
proof -
  have h: "packed_bins [None, Some (QuantumCircuit 3)] [(''a'', 4)] =
     Inr [\<lparr>capacity = 1, full = False, index = 0,
            jobs = [\<lparr>name = ''2'', job_instance = Some (QuantumCircuit 3)\<rparr>], qpu = 0\<rparr>]"
    by (simp add: packer_defs str_nat_small)
  have ids: "tl (lp_jobs [None, Some (QuantumCircuit 3)]) = [''1'', ''2'']"
    by (simp add: lp_jobs_def str_nat_small)
  have "map_sum id snd (generate_baseline_schedule [None, Some (QuantumCircuit 3)] [(''a'', 4)]
       [[1], [1]] [[[0], [0], [0]], [[0], [0], [0]], [[0], [0], [0]]]) =
     Inr [\<lparr>job_name = ''2'', machine = ''a'', start_time = 0, completion_time = - 1\<rparr>]"
    unfolding generate_baseline_schedule_def h
    by (simp add: calculate_result_from_baseline_def combined_jobs_def acc_keys_def Let_def)
  with ids show ?thesis
    by simp
qed

section \<open>When the assertion fails\<close>

lemma find_fitting_bin_fresh_None:
  "find_fitting_bin c (fresh_bins i accs) = None \<longleftrightarrow> infeasible accs c"
proof -
  have "map capacity (fresh_bins i accs) = acc_values accs"
    by (rule nth_equalityI) (simp_all add: nth_fresh_bins acc_values_def)
  then have "capacity ` set (fresh_bins i accs) = set (acc_values accs)"
    by (metis set_map)
  then show ?thesis
    unfolding find_fitting_bin_None infeasible_def
    by (metis (no_types, lifting) image_iff)
qed

lemma open_capacity_le_machine:
  assumes "packer_inv accs st" "b \<in> set (open_bins st)"
  shows "\<exists>q \<in> set (acc_values accs). capacity b \<le> q"
proof -
  from assms have b: "qpu b < length accs" "capacity b = machine_capacity accs b - int (bin_load b)"
    by (auto simp: packer_inv_def bin_inv_def)
  then have "machine_capacity accs b \<in> set (acc_values accs)"
    by (simp add: machine_capacity_def acc_values_def)
  with b(2) show ?thesis
    by (intro bexI [of _ "machine_capacity accs b"]) simp_all
qed

lemma place_job_fails_iff:
  assumes "packer_inv accs st"
  shows "place_job accs job st = Inl e \<longleftrightarrow> (\<exists>c. job_instance job = Some c \<and> infeasible accs c)"
proof (cases "job_instance job")
  case None
  then show ?thesis by (simp add: place_job_def)
next
  case (Some c)
  show ?thesis
  proof (cases "infeasible accs c")
    case True
    have "find_fitting_bin c (open_bins st) = None"
      unfolding find_fitting_bin_None
    proof
      fix b assume "b \<in> set (open_bins st)"
      from open_capacity_le_machine [OF assms this] True
      show "capacity b < int (num_qubits c)"
        by (auto simp: infeasible_def)
    qed
    with True Some show ?thesis
      by (cases e) (simp add: place_job_def find_fitting_bin_fresh_None [THEN iffD2])
  next
    case False
    then have "find_fitting_bin c (fresh_bins (next_index st) accs) \<noteq> None"
      by (simp add: find_fitting_bin_fresh_None)
    with False Some show ?thesis
      by (auto simp: place_job_def split: option.splits)
  qed
qed

lemma pack_jobs_fails_iff:
  "packer_inv accs st \<Longrightarrow>
   pack_jobs accs js st = Inl e \<longleftrightarrow>
     (\<exists>j \<in> set js. \<exists>c. job_instance j = Some c \<and> infeasible accs c)"
proof (induction js arbitrary: st)
  case Nil
  then show ?case by simp
next
  case (Cons job rest)
  show ?case
  proof (cases "place_job accs job st")
    case (Inl e')
    with place_job_fails_iff [OF Cons.prems, of job e'] show ?thesis
      by (cases e, cases e') auto
  next
    case (Inr st')
    from place_job_inv [OF Cons.prems Inr] have "packer_inv accs st'" .
    from Cons.IH [OF this] Inr place_job_fails_iff [OF Cons.prems, of job e] show ?thesis
      by auto
  qed
qed

lemma pack_jobs_append:
  "pack_jobs accs (xs @ ys) st =
     (case pack_jobs accs xs st of Inl e \<Rightarrow> Inl e | Inr s \<Rightarrow> pack_jobs accs ys s)"
  by (induction xs arbitrary: st) (auto split: sum.splits)

lemma nth_new_jobs:
  "i < length js \<Longrightarrow> new_jobs js ! i = \<lparr>name = str_nat (i + 1), job_instance = js ! i\<rparr>"
  by (simp add: new_jobs_def nth_enumerate_eq)

lemma length_new_jobs [simp]: "length (new_jobs js) = length js"
  by (simp add: new_jobs_def)

lemma map_job_instance_new_jobs: "map job_instance (new_jobs js) = js"
  by (rule nth_equalityI) (simp_all add: nth_new_jobs)

lemma circuits_of_new_jobs:
  "(\<exists>j \<in> set (new_jobs js). \<exists>c. job_instance j = Some c \<and> P c) \<longleftrightarrow> (\<exists>c. Some c \<in> set js \<and> P c)"
proof -
  have "set js = job_instance ` set (new_jobs js)"
    by (metis map_job_instance_new_jobs set_map)
  then show ?thesis
    by (simp add: image_iff) (metis (no_types))
qed

lemma packed_bins_fails_iff:
  "packed_bins js accs = Inl e \<longleftrightarrow> (\<exists>c. Some c \<in> set js \<and> infeasible accs c)"
proof -
  have "packed_bins js accs = Inl e \<longleftrightarrow> pack_jobs accs (new_jobs js) (init_packer accs) = Inl e"
    by (simp add: packed_bins_def split: sum.splits)
  then show ?thesis
    using pack_jobs_fails_iff [OF packer_inv_init, of accs "new_jobs js" e]
    by (simp only: circuits_of_new_jobs)
qed

lemma new_jobs_append_Cons:
  "new_jobs (pre @ x # post) =
     new_jobs pre @ \<lparr>name = str_nat (length pre + 1), job_instance = x\<rparr> #
       drop (Suc (length pre)) (new_jobs (pre @ x # post))"
proof -
  let ?ys = "new_jobs (pre @ x # post)"
  have len: "length pre < length ?ys"
    by simp
  have "take (length pre) ?ys = new_jobs pre"
    by (rule nth_equalityI) (simp_all add: nth_new_jobs nth_append)
  moreover have "?ys ! length pre = \<lparr>name = str_nat (length pre + 1), job_instance = x\<rparr>"
    using nth_new_jobs [of "length pre" "pre @ x # post"] by simp
  ultimately show ?thesis
    using id_take_nth_drop [OF len] by simp
qed

section \<open>Infeasible jobs\<close>

lemma generate_fails_iff:
  "generate_baseline_schedule js accs pt stm = Inl e \<longleftrightarrow> packed_bins js accs = Inl e"
  by (simp add: generate_baseline_schedule_def split: sum.splits)

text \<open>
  Claim C6. The run aborts with the failed assertion if and only if some job of the list
  has a circuit that needs more qubits than the nominal capacity of every machine. The
  failure comes when the first such job is reached: the jobs before it are packed, its own
  step of the loop fails, and whatever follows it in the list has no influence; the
  result is the failure and carries no schedule.
\<close>

theorem infeasible_job:
  "(packed_bins js accs = Inl AssertionError \<longleftrightarrow> (\<exists>c. Some c \<in> set js \<and> infeasible accs c))
   \<and> (generate_baseline_schedule js accs process_times setup_times = Inl AssertionError \<longleftrightarrow>
        (\<exists>c. Some c \<in> set js \<and> infeasible accs c))
   \<and> ((\<forall>c'. Some c' \<in> set pre \<longrightarrow> \<not> infeasible accs c') \<and> infeasible accs c \<longrightarrow>
        (\<exists>s. pack_jobs accs (new_jobs pre) (init_packer accs) = Inr s \<and>
             place_job accs \<lparr>name = str_nat (length pre + 1), job_instance = Some c\<rparr> s =
               Inl AssertionError) \<and>
        generate_baseline_schedule (pre @ Some c # post) accs process_times setup_times =
          Inl AssertionError)"
proof -
  have 1: "packed_bins js accs = Inl AssertionError \<longleftrightarrow> (\<exists>c. Some c \<in> set js \<and> infeasible accs c)"
    for js
    by (rule packed_bins_fails_iff)
  have 3: "\<exists>s. pack_jobs accs (new_jobs pre) (init_packer accs) = Inr s \<and>
             place_job accs \<lparr>name = str_nat (length pre + 1), job_instance = Some c\<rparr> s =
               Inl AssertionError"
    if pre: "\<forall>c'. Some c' \<in> set pre \<longrightarrow> \<not> infeasible accs c'" and c: "infeasible accs c"
  proof -
    from pre have "pack_jobs accs (new_jobs pre) (init_packer accs) \<noteq> Inl AssertionError"
      using pack_jobs_fails_iff [OF packer_inv_init, of accs "new_jobs pre" AssertionError]
      by (simp only: circuits_of_new_jobs) blast
    then obtain s where s: "pack_jobs accs (new_jobs pre) (init_packer accs) = Inr s"
      by (cases "pack_jobs accs (new_jobs pre) (init_packer accs)") (auto intro: error.exhaust)
    from pack_jobs_inv [OF packer_inv_init s] have "packer_inv accs s" .
    from place_job_fails_iff [OF this, of "\<lparr>name = str_nat (length pre + 1), job_instance = Some c\<rparr>"
        AssertionError] c s
    show ?thesis by simp
  qed
  have 4: "generate_baseline_schedule (pre @ Some c # post) accs process_times setup_times =
          Inl AssertionError" if "infeasible accs c"
    using that 1 [of "pre @ Some c # post"] by (auto simp: generate_fails_iff)
  from 1 [of js] 3 4 show ?thesis
    by (simp only: generate_fails_iff) blast
qed

theorem infeasible_job_witness:
  "infeasible [(''a'', 4), (''b'', 2)] (QuantumCircuit 5)
   \<and> \<not> infeasible [(''a'', 4), (''b'', 2)] (QuantumCircuit 3)
   \<and> generate_baseline_schedule [Some (QuantumCircuit 3), Some (QuantumCircuit 5), Some (QuantumCircuit 1)]
        [(''a'', 4), (''b'', 2)] [] [] = Inl AssertionError
   \<and> packed_bins [Some (QuantumCircuit 3), Some (QuantumCircuit 1)] [(''a'', 4), (''b'', 2)] \<noteq>
        Inl AssertionError"
proof -
  have a: "infeasible [(''a'', 4), (''b'', 2)] (QuantumCircuit 5)"
    by (simp add: infeasible_def acc_values_def)
  have b: "\<not> infeasible [(''a'', 4), (''b'', 2)] (QuantumCircuit 3)"
    "\<not> infeasible [(''a'', 4), (''b'', 2)] (QuantumCircuit 1)"
    by (simp_all add: infeasible_def acc_values_def)
  from b have pre: "\<forall>c'. Some c' \<in> set [Some (QuantumCircuit 3)] \<longrightarrow>
      \<not> infeasible [(''a'', 4), (''b'', 2)] c'"
    by simp
  from b have none: "\<not> (\<exists>c. Some c \<in> set [Some (QuantumCircuit 3), Some (QuantumCircuit 1)] \<and>
      infeasible [(''a'', 4), (''b'', 2)] c)"
    by auto
  from infeasible_job [of "[Some (QuantumCircuit 3), Some (QuantumCircuit 1)]" "[(''a'', 4), (''b'', 2)]"
      "[]" "[]" "[Some (QuantumCircuit 3)]" "QuantumCircuit 5" "[Some (QuantumCircuit 1)]"]
    a b(1) pre none
  show ?thesis by simp
qed

section \<open>Order of the output\<close>

lemma sorted_wrt_insort_key_stable:
  fixes f :: "'a \<Rightarrow> nat"
  assumes "sorted_wrt (\<lambda>a b. f a \<le> f b \<and> (f a = f b \<longrightarrow> P a b)) ys"
    and "\<forall>y \<in> set ys. f x = f y \<longrightarrow> P x y"
  shows "sorted_wrt (\<lambda>a b. f a \<le> f b \<and> (f a = f b \<longrightarrow> P a b)) (insort_key f x ys)"
  using assms
proof (induction ys)
  case Nil
  then show ?case by simp
next
  case (Cons y ys)
  show ?case
  proof (cases "f x \<le> f y")
    case True
    with Cons.prems show ?thesis
      by (auto intro: order_trans)
  next
    case False
    with Cons.prems Cons.IH show ?thesis
      by (auto simp: set_insort_key)
  qed
qed

lemma sorted_wrt_sort_key_stable:
  fixes f :: "'a \<Rightarrow> nat"
  assumes "sorted_wrt (\<lambda>a b. f a = f b \<longrightarrow> P a b) xs"
  shows "sorted_wrt (\<lambda>a b. f a \<le> f b \<and> (f a = f b \<longrightarrow> P a b)) (sort_key f xs)"
  using assms
proof (induction xs)
  case Nil
  then show ?case by simp
next
  case (Cons x xs)
  then have "sorted_wrt (\<lambda>a b. f a \<le> f b \<and> (f a = f b \<longrightarrow> P a b)) (sort_key f xs)"
    and "\<forall>y \<in> set (sort_key f xs). f x = f y \<longrightarrow> P x y"
    by simp_all
  then have "sorted_wrt (\<lambda>a b. f a \<le> f b \<and> (f a = f b \<longrightarrow> P a b)) (insort_key f x (sort_key f xs))"
    by (rule sorted_wrt_insort_key_stable)
  then show ?case by simp
qed

lemma close_open_bins_order:
  assumes "packer_inv accs st"
  shows "sorted_wrt (\<lambda>a b. index a = index b \<longrightarrow> (full b \<longrightarrow> full a) \<and> (\<not> full a \<longrightarrow> qpu a < qpu b))
           (close_open_bins st)"
proof -
  let ?P = "\<lambda>a b. index a = index b \<longrightarrow> (full b \<longrightarrow> full a) \<and> (\<not> full a \<longrightarrow> qpu a < qpu b)"
  from assms have cl: "\<forall>b \<in> set (closed_bins st). full b"
    and op: "\<forall>b \<in> set (open_bins st). \<not> full b"
    and srt: "sorted_wrt gen_lt (open_bins st)"
    by (auto simp: packer_inv_def closed_inv_def open_inv_def)
  from cl have 1: "sorted_wrt ?P (closed_bins st)"
    by (simp add: sorted_wrt_iff_nth_less)
  have "sorted_wrt ?P (open_bins st)"
    by (rule sorted_wrt_mono_rel [OF _ srt]) (use op in \<open>auto simp: gen_lt_def\<close>)
  then have 2: "sorted_wrt ?P (filter (\<lambda>obin. length (jobs obin) > 0) (open_bins st))"
    by (rule sorted_wrt_filter)
  from 1 2 cl op show ?thesis
    by (auto simp: close_open_bins_def sorted_wrt_append)
qed

text \<open>
  Claim C1, amended. The bins of the output are in ascending order of generation. Among
  the bins of one generation, the full bins come first and the bins that are not full
  follow in the order of the machines: the stable sort keeps the order of \<open>closed_bins\<close>,
  to which a bin is appended when it fills up, and the rest at the end of the loop.
\<close>

theorem output_order:
  assumes "packed_bins js accs = Inr bins"
  shows "sorted (map index bins) \<and> sorted_wrt closing_order bins"
proof -
  from assms obtain st where st: "bins = sort_key index (close_open_bins st)" "packer_inv accs st"
    by (rule packed_bins_Inr)
  have "sorted_wrt closing_order bins"
    unfolding st(1) closing_order_def
    by (rule sorted_wrt_sort_key_stable) (rule close_open_bins_order [OF st(2)])
  moreover have "sorted (map index bins)"
    unfolding st(1) by (rule sorted_sort_key)
  ultimately show ?thesis by simp
qed

theorem output_order_witness:
  "packed_bins [Some (QuantumCircuit 3), Some (QuantumCircuit 4)] [(''a'', 4), (''b'', 4)] =
     Inr [\<lparr>capacity = 0, full = True, index = 0,
            jobs = [\<lparr>name = ''2'', job_instance = Some (QuantumCircuit 4)\<rparr>], qpu = 1\<rparr>,
          \<lparr>capacity = 1, full = False, index = 0,
            jobs = [\<lparr>name = ''1'', job_instance = Some (QuantumCircuit 3)\<rparr>], qpu = 0\<rparr>]
   \<and> closing_order
        \<lparr>capacity = 0, full = True, index = 0,
            jobs = [\<lparr>name = ''2'', job_instance = Some (QuantumCircuit 4)\<rparr>], qpu = 1\<rparr>
        \<lparr>capacity = 1, full = False, index = 0,
            jobs = [\<lparr>name = ''1'', job_instance = Some (QuantumCircuit 3)\<rparr>], qpu = 0\<rparr>"
proof -
  have h: "packed_bins [Some (QuantumCircuit 3), Some (QuantumCircuit 4)] [(''a'', 4), (''b'', 4)] =
     Inr [\<lparr>capacity = 0, full = True, index = 0,
            jobs = [\<lparr>name = ''2'', job_instance = Some (QuantumCircuit 4)\<rparr>], qpu = 1\<rparr>,
          \<lparr>capacity = 1, full = False, index = 0,
            jobs = [\<lparr>name = ''1'', job_instance = Some (QuantumCircuit 3)\<rparr>], qpu = 0\<rparr>]"
    by (simp add: packer_defs str_nat_small)
  from output_order [OF h] h show ?thesis
    by simp
qed

text \<open>
  The claim C1 as it is written fails: with two machines of capacity 4 and jobs of 3 and 4
  qubits, the second job fills the bin of machine 1, which is closed first, and the output
  has the bin of machine 1 before the bin of machine 0 of the same generation.
\<close>

theorem output_order_counterexample:
  "packed_bins [Some (QuantumCircuit 3), Some (QuantumCircuit 4)] [(''a'', 4), (''b'', 4)] =
     Inr [\<lparr>capacity = 0, full = True, index = 0,
            jobs = [\<lparr>name = ''2'', job_instance = Some (QuantumCircuit 4)\<rparr>], qpu = 1\<rparr>,
          \<lparr>capacity = 1, full = False, index = 0,
            jobs = [\<lparr>name = ''1'', job_instance = Some (QuantumCircuit 3)\<rparr>], qpu = 0\<rparr>]
   \<and> \<not> sorted_wrt gen_lt
        [\<lparr>capacity = 0, full = True, index = 0,
            jobs = [\<lparr>name = ''2'', job_instance = Some (QuantumCircuit 4)\<rparr>], qpu = 1\<rparr>,
         \<lparr>capacity = 1, full = False, index = 0,
            jobs = [\<lparr>name = ''1'', job_instance = Some (QuantumCircuit 3)\<rparr>], qpu = 0\<rparr>]
   \<and> map_sum id snd (generate_baseline_schedule [Some (QuantumCircuit 3), Some (QuantumCircuit 4)]
        [(''a'', 4), (''b'', 4)] [[1, 1], [1, 1]]
        [[[0, 0], [0, 0], [0, 0]], [[0, 0], [0, 0], [0, 0]], [[0, 0], [0, 0], [0, 0]]]) =
     Inr [\<lparr>job_name = ''2'', machine = ''b'', start_time = 0, completion_time = - 1\<rparr>,
          \<lparr>job_name = ''1'', machine = ''a'', start_time = 0, completion_time = - 1\<rparr>]"
proof -
  have h: "packed_bins [Some (QuantumCircuit 3), Some (QuantumCircuit 4)] [(''a'', 4), (''b'', 4)] =
     Inr [\<lparr>capacity = 0, full = True, index = 0,
            jobs = [\<lparr>name = ''2'', job_instance = Some (QuantumCircuit 4)\<rparr>], qpu = 1\<rparr>,
          \<lparr>capacity = 1, full = False, index = 0,
            jobs = [\<lparr>name = ''1'', job_instance = Some (QuantumCircuit 3)\<rparr>], qpu = 0\<rparr>]"
    by (simp add: packer_defs str_nat_small)
  have g: "map_sum id snd (generate_baseline_schedule [Some (QuantumCircuit 3), Some (QuantumCircuit 4)]
        [(''a'', 4), (''b'', 4)] [[1, 1], [1, 1]]
        [[[0, 0], [0, 0], [0, 0]], [[0, 0], [0, 0], [0, 0]], [[0, 0], [0, 0], [0, 0]]]) =
     Inr [\<lparr>job_name = ''2'', machine = ''b'', start_time = 0, completion_time = - 1\<rparr>,
          \<lparr>job_name = ''1'', machine = ''a'', start_time = 0, completion_time = - 1\<rparr>]"
    unfolding generate_baseline_schedule_def h
    by (simp add: calculate_result_from_baseline_def combined_jobs_def acc_keys_def Let_def)
  from h g show ?thesis
    by (simp add: gen_lt_def)
qed

section \<open>The generations in use\<close>

lemma job_gens_append [simp]: "job_gens (xs @ ys) = job_gens xs @ job_gens ys"
  by (simp add: job_gens_def)

lemma job_gens_Cons [simp]: "job_gens (b # bs) = map (\<lambda>_. index b) (jobs b) @ job_gens bs"
  by (simp add: job_gens_def)

lemma job_gens_Nil [simp]: "job_gens [] = []"
  by (simp add: job_gens_def)

lemma length_job_gens: "length (job_gens bs) = length (bins_jobs bs)"
  by (induction bs) simp_all

lemma set_job_gens: "set (job_gens bs) = index ` {b \<in> set bs. jobs b \<noteq> []}"
  by (induction bs) (auto simp: image_constant_conv)

lemma job_gens_fresh [simp]: "job_gens (fresh_bins i accs) = []"
  by (auto simp: job_gens_def in_set_fresh_bins)

lemma mset_job_gens_split:
  assumes "i < length bs"
  shows "mset (job_gens bs) =
         mset (job_gens (del_at i bs)) + mset (map (\<lambda>_. index (bs ! i)) (jobs (bs ! i)))"
proof -
  have "job_gens bs = job_gens (take i bs @ bs ! i # drop (Suc i) bs)"
    using assms by (simp add: id_take_nth_drop [symmetric])
  then show ?thesis
    by (simp add: del_at_def)
qed

lemma mset_job_gens_update:
  assumes "i < length bs"
  shows "mset (job_gens (bs[i := b])) =
         mset (job_gens (del_at i bs)) + mset (map (\<lambda>_. index b) (jobs b))"
  using assms by (simp add: upd_conv_take_nth_drop del_at_def)

lemma add_to_bin_gens:
  assumes "i < length (open_bins st)"
  shows "mset (job_gens (closed_bins (add_to_bin job c i st) @ open_bins (add_to_bin job c i st))) =
         mset (job_gens (closed_bins st @ open_bins st)) + {#index (open_bins st ! i)#}"
  using assms mset_job_gens_split [OF assms]
  by (simp add: add_to_bin_def Let_def mset_job_gens_update)

lemma add_to_bin_next_index [simp]: "next_index (add_to_bin job c i st) = next_index st"
  by (simp add: add_to_bin_def Let_def)

lemma add_to_bin_gens_set:
  assumes "i < length (open_bins st)"
  shows "set (job_gens (closed_bins (add_to_bin job c i st) @ open_bins (add_to_bin job c i st))) =
           insert (index (open_bins st ! i)) (set (job_gens (closed_bins st @ open_bins st)))"
    and "length (job_gens (closed_bins (add_to_bin job c i st) @ open_bins (add_to_bin job c i st))) =
           Suc (length (job_gens (closed_bins st @ open_bins st)))"
proof -
  let ?G' = "job_gens (closed_bins (add_to_bin job c i st) @ open_bins (add_to_bin job c i st))"
  let ?G = "job_gens (closed_bins st @ open_bins st)"
  have m: "mset ?G' = mset ?G + {#index (open_bins st ! i)#}"
    by (rule add_to_bin_gens [OF assms])
  from arg_cong [OF m, of set_mset] show "set ?G' = insert (index (open_bins st ! i)) (set ?G)"
    by simp
  from arg_cong [OF m, of size] show "length ?G' = Suc (length ?G)"
    by simp
qed

lemma place_job_gens_inv:
  assumes inv: "packer_inv accs st" and g: "gens_inv accs st"
    and step: "place_job accs job st = Inr st'"
  shows "gens_inv accs st'"
proof (cases "job_instance job")
  case None
  with step g show ?thesis by (simp add: place_job_def)
next
  case (Some c)
  show ?thesis
  proof (cases "find_fitting_bin c (open_bins st)")
    case (Some i)
    with step \<open>job_instance job = Some c\<close> have st': "st' = add_to_bin job c i st"
      by (simp add: place_job_def)
    from find_fitting_bin_Some [OF Some] have i: "i < length (open_bins st)"
      by simp
    from g show ?thesis
      unfolding gens_inv_def [of accs st]
    proof
      assume init: "st = init_packer accs"
      with i have "index (open_bins st ! i) = 0"
        by (simp add: init_packer_def nth_fresh_bins)
      with add_to_bin_gens_set [OF i, of job c] init have
        "set (job_gens (closed_bins st' @ open_bins st')) = {..<next_index st'}"
        "next_index st' \<le> length (job_gens (closed_bins st' @ open_bins st'))"
        unfolding st' by (auto simp: init_packer_def)
      then show ?thesis
        by (simp add: gens_inv_def)
    next
      assume a: "set (job_gens (closed_bins st @ open_bins st)) = {..<next_index st} \<and>
        next_index st \<le> length (job_gens (closed_bins st @ open_bins st))"
      from inv i have "index (open_bins st ! i) < next_index st"
        by (auto simp: packer_inv_def bin_inv_def)
      with add_to_bin_gens_set [OF i, of job c] a have
        "set (job_gens (closed_bins st' @ open_bins st')) = {..<next_index st'}"
        "next_index st' \<le> length (job_gens (closed_bins st' @ open_bins st'))"
        unfolding st' by auto
      then show ?thesis
        by (simp add: gens_inv_def)
    qed
  next
    case None
    let ?new = "fresh_bins (next_index st) accs"
    let ?st = "st\<lparr>next_index := next_index st + 1, open_bins := open_bins st @ ?new\<rparr>"
    from step None \<open>job_instance job = Some c\<close> obtain k where
      k: "find_fitting_bin c ?new = Some k" and st': "st' = add_to_bin job c (k + length (open_bins st)) ?st"
      by (auto simp: place_job_def Let_def split: option.splits)
    from find_fitting_bin_Some [OF k] have kl: "k < length accs"
      by simp
    then have i: "k + length (open_bins st) < length (open_bins ?st)"
      by simp
    have idx: "index (open_bins ?st ! (k + length (open_bins st))) = next_index st"
      using kl by (simp add: nth_append nth_fresh_bins)
    have "st \<noteq> init_packer accs"
    proof
      assume "st = init_packer accs"
      with None have "find_fitting_bin c (fresh_bins 0 accs) = None"
        by (simp add: init_packer_def)
      then have "find_fitting_bin c ?new = None"
        by (simp only: find_fitting_bin_fresh_None)
      with k show False by simp
    qed
    with g have a: "set (job_gens (closed_bins st @ open_bins st)) = {..<next_index st}"
      "next_index st \<le> length (job_gens (closed_bins st @ open_bins st))"
      by (auto simp: gens_inv_def)
    from add_to_bin_gens_set [OF i, of job c] idx a have
      "set (job_gens (closed_bins st' @ open_bins st')) = {..<next_index st'}"
      "next_index st' \<le> length (job_gens (closed_bins st' @ open_bins st'))"
      unfolding st' by (auto simp: lessThan_Suc)
    then show ?thesis
      by (simp add: gens_inv_def)
  qed
qed

lemma pack_jobs_gens_inv:
  "packer_inv accs st \<Longrightarrow> gens_inv accs st \<Longrightarrow> pack_jobs accs js st = Inr st' \<Longrightarrow>
   gens_inv accs st'"
proof (induction js arbitrary: st)
  case Nil
  then show ?case by simp
next
  case (Cons job rest)
  from Cons.prems(3) obtain st1 where st1: "place_job accs job st = Inr st1"
    "pack_jobs accs rest st1 = Inr st'"
    by (auto split: sum.splits)
  from place_job_inv [OF Cons.prems(1) st1(1)] place_job_gens_inv [OF Cons.prems(1,2) st1(1)] st1(2)
  show ?case by (rule Cons.IH)
qed

section \<open>Number of generations\<close>

lemma length_filter_has_circuit:
  "length (filter has_circuit (new_jobs js)) = length (filter (\<lambda>j. j \<noteq> None) js)"
proof -
  have "has_circuit = (\<lambda>j. j \<noteq> None) \<circ> job_instance"
    by (rule ext) (simp add: has_circuit_def)
  then have "length (filter has_circuit (new_jobs js)) =
      length (map job_instance (filter ((\<lambda>j. j \<noteq> None) \<circ> job_instance) (new_jobs js)))"
    by (simp only: length_map)
  also have "\<dots> = length (filter (\<lambda>j. j \<noteq> None) (map job_instance (new_jobs js)))"
    by (simp only: filter_map)
  finally show ?thesis
    by (simp only: map_job_instance_new_jobs)
qed

lemma output_generations:
  assumes "packer_inv accs st"
  shows "index ` set (sort_key index (close_open_bins st)) =
         set (job_gens (closed_bins st @ open_bins st))"
proof -
  from assms have "\<forall>b \<in> set (closed_bins st). jobs b \<noteq> []"
    by (auto simp: packer_inv_def closed_inv_def)
  then show ?thesis
    by (auto simp: set_job_gens close_open_bins_def)
qed

text \<open>
  Claim C3, amended. When the packer succeeds, the generations of the output bins are
  exactly the numbers below their count (so the count is the greatest generation plus
  one), and the count is at most the number of entries of the job list that have a
  circuit: each new generation is opened for a job, which is placed in it at once.
\<close>

theorem generations_bound:
  assumes "packed_bins js accs = Inr bins"
  shows "index ` set bins = {..<card (index ` set bins)} \<and>
         card (index ` set bins) \<le> length (filter (\<lambda>j. j \<noteq> None) js)"
proof -
  from assms obtain st where run: "pack_jobs accs (new_jobs js) (init_packer accs) = Inr st"
    and bins: "bins = sort_key index (close_open_bins st)" and inv: "packer_inv accs st"
    by (rule packed_bins_Inr)
  let ?G = "job_gens (closed_bins st @ open_bins st)"
  have gi: "gens_inv accs st"
    by (rule pack_jobs_gens_inv [OF packer_inv_init _ run]) (simp add: gens_inv_def)
  have set_eq: "index ` set bins = set ?G"
    unfolding bins by (rule output_generations [OF inv])
  have "mset (bins_jobs (closed_bins st @ open_bins st)) = mset (filter has_circuit (new_jobs js))"
    using pack_jobs_mset [OF run] by (simp add: init_packer_def del: bins_jobs_append)
  then have "length (bins_jobs (closed_bins st @ open_bins st)) =
      length (filter has_circuit (new_jobs js))"
    by (rule mset_eq_length)
  then have len: "length ?G = length (filter (\<lambda>j. j \<noteq> None) js)"
    by (simp only: length_job_gens length_filter_has_circuit)
  from gi show ?thesis
    unfolding gens_inv_def
  proof
    assume "st = init_packer accs"
    then have "set ?G = {}"
      by (simp add: init_packer_def)
    with set_eq show ?thesis by simp
  next
    assume "set ?G = {..<next_index st} \<and> next_index st \<le> length ?G"
    with set_eq len show ?thesis by simp
  qed
qed

theorem generations_bound_witness:
  "packed_bins [Some (QuantumCircuit 2), Some (QuantumCircuit 2), Some (QuantumCircuit 2)] [(''a'', 3)] =
     Inr [\<lparr>capacity = 1, full = False, index = 0,
            jobs = [\<lparr>name = ''1'', job_instance = Some (QuantumCircuit 2)\<rparr>], qpu = 0\<rparr>,
          \<lparr>capacity = 1, full = False, index = 1,
            jobs = [\<lparr>name = ''2'', job_instance = Some (QuantumCircuit 2)\<rparr>], qpu = 0\<rparr>,
          \<lparr>capacity = 1, full = False, index = 2,
            jobs = [\<lparr>name = ''3'', job_instance = Some (QuantumCircuit 2)\<rparr>], qpu = 0\<rparr>]
   \<and> card (index ` set [\<lparr>capacity = 1, full = False, index = 0,
            jobs = [\<lparr>name = ''1'', job_instance = Some (QuantumCircuit 2)\<rparr>], qpu = 0\<rparr>,
          \<lparr>capacity = 1, full = False, index = 1,
            jobs = [\<lparr>name = ''2'', job_instance = Some (QuantumCircuit 2)\<rparr>], qpu = 0\<rparr>,
          \<lparr>capacity = 1, full = False, index = 2,
            jobs = [\<lparr>name = ''3'', job_instance = Some (QuantumCircuit 2)\<rparr>], qpu = 0\<rparr>]) \<le> 3"
proof -
  have h: "packed_bins [Some (QuantumCircuit 2), Some (QuantumCircuit 2), Some (QuantumCircuit 2)] [(''a'', 3)] =
     Inr [\<lparr>capacity = 1, full = False, index = 0,
            jobs = [\<lparr>name = ''1'', job_instance = Some (QuantumCircuit 2)\<rparr>], qpu = 0\<rparr>,
          \<lparr>capacity = 1, full = False, index = 1,
            jobs = [\<lparr>name = ''2'', job_instance = Some (QuantumCircuit 2)\<rparr>], qpu = 0\<rparr>,
          \<lparr>capacity = 1, full = False, index = 2,
            jobs = [\<lparr>name = ''3'', job_instance = Some (QuantumCircuit 2)\<rparr>], qpu = 0\<rparr>]"
    by (simp add: packer_defs str_nat_small)
  from generations_bound [OF h] h show ?thesis
    by simp
qed

text \<open>
  The claim C3 as it is written fails: one machine of capacity 3 and three jobs of 2 qubits
  need three generations, while the total demand 6 over the total capacity 3 is 2.
\<close>

theorem generations_bound_counterexample:
  "packed_bins [Some (QuantumCircuit 2), Some (QuantumCircuit 2), Some (QuantumCircuit 2)] [(''a'', 3)] =
     Inr [\<lparr>capacity = 1, full = False, index = 0,
            jobs = [\<lparr>name = ''1'', job_instance = Some (QuantumCircuit 2)\<rparr>], qpu = 0\<rparr>,
          \<lparr>capacity = 1, full = False, index = 1,
            jobs = [\<lparr>name = ''2'', job_instance = Some (QuantumCircuit 2)\<rparr>], qpu = 0\<rparr>,
          \<lparr>capacity = 1, full = False, index = 2,
            jobs = [\<lparr>name = ''3'', job_instance = Some (QuantumCircuit 2)\<rparr>], qpu = 0\<rparr>]
   \<and> card (index ` set [\<lparr>capacity = 1, full = False, index = 0,
            jobs = [\<lparr>name = ''1'', job_instance = Some (QuantumCircuit 2)\<rparr>], qpu = 0\<rparr>,
          \<lparr>capacity = 1, full = False, index = 1,
            jobs = [\<lparr>name = ''2'', job_instance = Some (QuantumCircuit 2)\<rparr>], qpu = 0\<rparr>,
          \<lparr>capacity = 1, full = False, index = 2,
            jobs = [\<lparr>name = ''3'', job_instance = Some (QuantumCircuit 2)\<rparr>], qpu = 0\<rparr>]) = 3
   \<and> spec_generation_bound
        [Some (QuantumCircuit 2), Some (QuantumCircuit 2), Some (QuantumCircuit 2)] [(''a'', 3)] = 2
   \<and> \<not> int (card (index ` set [\<lparr>capacity = 1, full = False, index = 0,
            jobs = [\<lparr>name = ''1'', job_instance = Some (QuantumCircuit 2)\<rparr>], qpu = 0\<rparr>,
          \<lparr>capacity = 1, full = False, index = 1,
            jobs = [\<lparr>name = ''2'', job_instance = Some (QuantumCircuit 2)\<rparr>], qpu = 0\<rparr>,
          \<lparr>capacity = 1, full = False, index = 2,
            jobs = [\<lparr>name = ''3'', job_instance = Some (QuantumCircuit 2)\<rparr>], qpu = 0\<rparr>])) \<le>
       spec_generation_bound
        [Some (QuantumCircuit 2), Some (QuantumCircuit 2), Some (QuantumCircuit 2)] [(''a'', 3)]"
proof -
  have h: "packed_bins [Some (QuantumCircuit 2), Some (QuantumCircuit 2), Some (QuantumCircuit 2)] [(''a'', 3)] =
     Inr [\<lparr>capacity = 1, full = False, index = 0,
            jobs = [\<lparr>name = ''1'', job_instance = Some (QuantumCircuit 2)\<rparr>], qpu = 0\<rparr>,
          \<lparr>capacity = 1, full = False, index = 1,
            jobs = [\<lparr>name = ''2'', job_instance = Some (QuantumCircuit 2)\<rparr>], qpu = 0\<rparr>,
          \<lparr>capacity = 1, full = False, index = 2,
            jobs = [\<lparr>name = ''3'', job_instance = Some (QuantumCircuit 2)\<rparr>], qpu = 0\<rparr>]"
    by (simp add: packer_defs str_nat_small)
  have b: "spec_generation_bound
        [Some (QuantumCircuit 2), Some (QuantumCircuit 2), Some (QuantumCircuit 2)] [(''a'', 3)] = 2"
    by (simp add: spec_generation_bound_def total_demand_def total_capacity_def acc_values_def)
  from h b show ?thesis
    by simp
qed

section \<open>Malformed input\<close>







section \<open>Opening a generation\<close>








section \<open>Missing cost entries\<close>





end
